theory Spec2Isabelle
  imports Main "HOL-Library.Sublist"
begin

section \<open>The element tree handed to the extractor\<close>

text \<open>
  The script \<^verbatim>\<open>data_generation/clinvar.py\<close> reads its input through
  \<^verbatim>\<open>lxml.etree\<close>. An element has a tag, attributes, an optional text and its
  child elements in document order. Attribute names are unique in XML, so the
  attributes are an association list read with \<open>map_of\<close>. The tail text of an
  element is never read by the script and is left out.
\<close>

datatype elem =
  Elem (tag: string) (attrib: "(string \<times> string) list") (etext: "string option")
       (children: "elem list")

text \<open>\<^verbatim>\<open>elem.get(key)\<close>: the attribute's value, or \<^verbatim>\<open>None\<close>.\<close>

definition get :: "elem \<Rightarrow> string \<Rightarrow> string option" where
  "get e k = map_of (attrib e) k"

text \<open>\<^verbatim>\<open>elem.iterdescendants()\<close>: the proper descendants, in document order.\<close>

fun iterdescendants :: "elem \<Rightarrow> elem list" where
  "iterdescendants (Elem t a tx cs) = concat (map (\<lambda>c. c # iterdescendants c) cs)"

text \<open>The number of nodes of a subtree: the element and its descendants.\<close>

definition node_count :: "elem \<Rightarrow> nat" where
  "node_count e = Suc (length (iterdescendants e))"

subsection \<open>The ElementPath subset used by the script\<close>

text \<open>
  \<^verbatim>\<open>find\<close> and \<^verbatim>\<open>findall\<close> of lxml evaluate a path as a pipeline of
  selectors, each mapping the sequence of nodes selected so far to the next one:
  \<^verbatim>\<open>.\<close> keeps the sequence, \<^verbatim>\<open>tag\<close> replaces every node by its children of
  that tag, \<^verbatim>\<open>//tag\<close> by its proper descendants of that tag, and
  \<^verbatim>\<open>[@k='v']\<close> keeps the nodes whose attribute \<open>k\<close> is \<open>v\<close>. The paths of
  the script are written as lists of such steps.
\<close>

datatype path_step = Self | Child string | Descendant string | AttrEq string string

fun select :: "path_step \<Rightarrow> elem list \<Rightarrow> elem list" where
  "select Self result = result"
| "select (Child t) result =
     concat (map (\<lambda>e. filter (\<lambda>c. tag c = t) (children e)) result)"
| "select (Descendant t) result =
     concat (map (\<lambda>e. filter (\<lambda>c. tag c = t) (iterdescendants e)) result)"
| "select (AttrEq k v) result = filter (\<lambda>e. get e k = Some v) result"

definition findall :: "elem \<Rightarrow> path_step list \<Rightarrow> elem list" where
  "findall e path = foldl (\<lambda>result st. select st result) [e] path"

definition find_first :: "elem \<Rightarrow> path_step list \<Rightarrow> elem option" where
  "find_first e path = (case findall e path of [] \<Rightarrow> None | found # _ \<Rightarrow> Some found)"

section \<open>The per-record extraction\<close>

definition get_text :: "elem \<Rightarrow> path_step list \<Rightarrow> string option" where
  "get_text e path = (case find_first e path of None \<Rightarrow> None | Some found \<Rightarrow> etext found)"

definition get_attr :: "elem \<Rightarrow> path_step list \<Rightarrow> string \<Rightarrow> string option" where
  "get_attr e path a = (case find_first e path of None \<Rightarrow> None | Some found \<Rightarrow> get found a)"

type_synonym row = "string option list"

definition header :: "string list" where
  "header = [''variation_id'', ''rs_id'', ''gene'', ''variant_type'', ''consequence'',
             ''chromosome'', ''position'', ''clinical_sig'', ''disease_name'', ''species'',
             ''mim_gene'', ''mim_disease'']"

text \<open>The four scanning loops, each over the list \<^verbatim>\<open>findall\<close> returned.\<close>

fun loc_loop :: "elem list \<Rightarrow> string option \<times> string option" where
  "loc_loop [] = (None, None)"
| "loc_loop (loc # rest) =
     (if get loc ''Assembly'' = Some ''GRCh38'' then (get loc ''Chr'', get loc ''start'')
      else loc_loop rest)"

fun rs_id_loop :: "elem list \<Rightarrow> string option" where
  "rs_id_loop [] = None"
| "rs_id_loop (x # rest) =
     (if get x ''DB'' = Some ''dbSNP'' then get x ''ID'' else rs_id_loop rest)"

fun disease_name_loop :: "elem list \<Rightarrow> string option" where
  "disease_name_loop [] = None"
| "disease_name_loop (ev # rest) =
     (if get ev ''Type'' = Some ''Preferred'' then etext ev else disease_name_loop rest)"

fun mim_disease_loop :: "elem list \<Rightarrow> string option" where
  "mim_disease_loop [] = None"
| "mim_disease_loop (x # rest) =
     (if get x ''DB'' = Some ''OMIM'' \<and> get x ''Type'' = Some ''MIM'' then get x ''ID''
      else mim_disease_loop rest)"

text \<open>The local variables of the loop body, as functions of the record \<open>va\<close>.\<close>

definition variation_id :: "elem \<Rightarrow> string option" where
  "variation_id va = get va ''VariationID''"

definition species :: "elem \<Rightarrow> string option" where
  "species va = get_text va [Child ''Species'']"

definition gene :: "elem \<Rightarrow> string option" where
  "gene va = get_attr va [Self, Descendant ''GeneList'', Child ''Gene''] ''Symbol''"

definition variant_type :: "elem \<Rightarrow> string option" where
  "variant_type va = get_text va [Self, Descendant ''SimpleAllele'', Child ''VariantType'']"

definition consequence :: "elem \<Rightarrow> string option" where
  "consequence va = get_attr va [Self, Descendant ''MolecularConsequence''] ''Type''"

definition chrom_pos :: "elem \<Rightarrow> string option \<times> string option" where
  "chrom_pos va = loc_loop (findall va [Self, Descendant ''SequenceLocation''])"

definition chrom :: "elem \<Rightarrow> string option" where
  "chrom va = fst (chrom_pos va)"

definition pos :: "elem \<Rightarrow> string option" where
  "pos va = snd (chrom_pos va)"

definition rs_id :: "elem \<Rightarrow> string option" where
  "rs_id va = rs_id_loop (findall va [Self, Descendant ''XRef''])"

definition clinical_sig :: "elem \<Rightarrow> string option" where
  "clinical_sig va =
     get_text va [Self, Descendant ''Classifications'', Child ''GermlineClassification'',
                  Child ''Description'']"

definition disease_name :: "elem \<Rightarrow> string option" where
  "disease_name va =
     disease_name_loop
       (findall va [Self, Descendant ''Trait'', AttrEq ''Type'' ''Disease'',
                    Descendant ''ElementValue''])"

definition mim_gene :: "elem \<Rightarrow> string option" where
  "mim_gene va = get_text va [Self, Descendant ''Gene'', Child ''OMIM'']"

definition mim_disease :: "elem \<Rightarrow> string option" where
  "mim_disease va = mim_disease_loop (findall va [Self, Descendant ''XRef''])"

text \<open>The list handed to \<^verbatim>\<open>writer.writerow\<close> for one record.\<close>

definition row_of :: "elem \<Rightarrow> row" where
  "row_of va =
     [variation_id va, rs_id va, gene va, variant_type va, consequence va, chrom va, pos va,
      clinical_sig va, disease_name va, species va, mim_gene va, mim_disease va]"

section \<open>The streaming run\<close>

text \<open>
  \<^verbatim>\<open>ET.iterparse(XML_FILE, events=("end",), tag="VariationArchive")\<close> reads the
  document as a forward-only stream. The stream reader delivers the document as a
  sequence of events: an opening tag with its attributes, character data, a closing tag.
\<close>

datatype event = Start string "(string \<times> string) list" | Text string | End string

text \<open>
  What the stream reader reports when the stream is not a well-formed document. lxml
  raises all of them as \<^verbatim>\<open>XMLSyntaxError\<close>; the script catches nothing, so each of
  them ends the run. \<open>Premature_end\<close> is the stream that stops while an element is open.
\<close>

datatype reason = Premature_end | Tag_mismatch | Extra_content | Start_tag_expected
  | Document_empty

datatype error = XMLSyntaxError reason

text \<open>
  The state of the run: the open elements, innermost first, each with the children that
  have closed so far; the closed document root; and the rows handed to the writer.
  lxml hangs an element into its parent when it opens; here it joins the parent's
  children when it closes, and until then it is on the stack, so the nodes in memory
  are the same. The reader is taken to deliver one event at a time (lxml reads the file
  in chunks of a fixed size and queues the events of a chunk, which changes no row and
  adds a bounded number of nodes).
\<close>

record pstate =
  stack :: "elem list"
  root :: "elem option"
  written :: "row list"

definition init_state :: pstate where
  "init_state = \<lparr>stack = [], root = None, written = [map Some header]\<rparr>"

text \<open>\<^verbatim>\<open>va.clear()\<close> drops the attributes, the text and the children; the tag stays.\<close>

definition clear :: "elem \<Rightarrow> elem" where
  "clear e = Elem (tag e) [] None []"

definition add_child :: "elem \<Rightarrow> elem \<Rightarrow> elem" where
  "add_child p c = Elem (tag p) (attrib p) (etext p) (children p @ [c])"

definition set_children :: "elem \<Rightarrow> elem list \<Rightarrow> elem" where
  "set_children p cs = Elem (tag p) (attrib p) (etext p) cs"

definition add_text :: "elem \<Rightarrow> string \<Rightarrow> elem" where
  "add_text e x =
     Elem (tag e) (attrib e) (Some (case etext e of None \<Rightarrow> x | Some y \<Rightarrow> y @ x)) (children e)"

text \<open>An element other than a record closes: it stays in the tree, under its parent.\<close>

definition close_plain :: "elem \<Rightarrow> elem list \<Rightarrow> pstate \<Rightarrow> pstate" where
  "close_plain e st s =
     (case st of
        [] \<Rightarrow> s\<lparr>stack := [], root := Some e\<rparr>
      | p # st' \<Rightarrow> s\<lparr>stack := add_child p e # st'\<rparr>)"

text \<open>
  The body of the \<^verbatim>\<open>for _, va in context\<close> loop, run when a record closes: the row
  is written, \<open>va\<close> is cleared, and
  \<^verbatim>\<open>while va.getprevious() is not None: del va.getparent()[0]\<close> deletes every
  sibling before \<open>va\<close>, so that \<open>va\<close> is the only child its parent keeps. A record
  that is the document root has no parent and no sibling.
\<close>

definition loop_body :: "elem \<Rightarrow> elem list \<Rightarrow> pstate \<Rightarrow> pstate" where
  "loop_body va st s =
     (let s1 = s\<lparr>written := written s @ [row_of va]\<rparr>
      in case st of
           [] \<Rightarrow> s1\<lparr>stack := [], root := Some (clear va)\<rparr>
         | p # st' \<Rightarrow> s1\<lparr>stack := set_children p [clear va] # st'\<rparr>)"

fun step :: "event \<Rightarrow> pstate \<Rightarrow> error + pstate" where
  "step (Start t a) s =
     (if stack s = [] \<and> root s \<noteq> None then Inl (XMLSyntaxError Extra_content)
      else Inr (s\<lparr>stack := Elem t a None [] # stack s\<rparr>))"
| "step (Text x) s =
     (case stack s of
        [] \<Rightarrow> Inl (XMLSyntaxError (if root s = None then Start_tag_expected else Extra_content))
      | e # st \<Rightarrow> Inr (if children e = [] then s\<lparr>stack := add_text e x # st\<rparr> else s))"
| "step (End t) s =
     (case stack s of
        [] \<Rightarrow> Inl (XMLSyntaxError Extra_content)
      | e # st \<Rightarrow>
          if tag e \<noteq> t then Inl (XMLSyntaxError Tag_mismatch)
          else if t = ''VariationArchive'' then Inr (loop_body e st s)
          else Inr (close_plain e st s))"

text \<open>
  The events are consumed in order; the first error stops the run where it is, after the
  loop body has run for every record that closed before it.
\<close>

fun feed :: "event list \<Rightarrow> pstate \<Rightarrow> error option \<times> pstate" where
  "feed [] s = (None, s)"
| "feed (ev # evs) s = (case step ev s of Inl err \<Rightarrow> (Some err, s) | Inr s' \<Rightarrow> feed evs s')"

text \<open>At the end of the stream the reader checks that the document is complete.\<close>

definition finish :: "pstate \<Rightarrow> error option" where
  "finish s =
     (if stack s \<noteq> [] then Some (XMLSyntaxError Premature_end)
      else if root s = None then Some (XMLSyntaxError Document_empty)
      else None)"

text \<open>The whole script: the rows written, the header first, and how the run ended.\<close>

definition run :: "event list \<Rightarrow> row list \<times> error option" where
  "run evs =
     (case feed evs init_state of
        (Some err, s) \<Rightarrow> (written s, Some err)
      | (None, s) \<Rightarrow> (written s, finish s))"

subsection \<open>The nodes the run retains\<close>

definition retained :: "pstate \<Rightarrow> nat" where
  "retained s =
     sum_list (map node_count (stack s)) + (case root s of None \<Rightarrow> 0 | Some r \<Rightarrow> node_count r)"

text \<open>The largest number of retained nodes over all the states a run goes through.\<close>

fun peak_retained :: "event list \<Rightarrow> pstate \<Rightarrow> nat" where
  "peak_retained [] s = retained s"
| "peak_retained (ev # evs) s =
     (case step ev s of
        Inl err \<Rightarrow> retained s
      | Inr s' \<Rightarrow> max (retained s) (peak_retained evs s'))"

subsection \<open>Documents as event streams\<close>

text \<open>The events the stream reader delivers for a well-formed element.\<close>

fun events_of :: "elem \<Rightarrow> event list" where
  "events_of (Elem t a tx cs) =
     Start t a # (case tx of None \<Rightarrow> [] | Some x \<Rightarrow> [Text x])
       @ concat (map events_of cs) @ [End t]"

text \<open>
  The element as the loop body finds it when its closing tag arrives: every record inside
  it has been cleared already and has taken its earlier siblings with it. An element
  without a record inside is found as it is in the document.
\<close>

fun pruned :: "elem \<Rightarrow> elem" where
  "pruned (Elem t a tx cs) =
     Elem t a tx
       (foldl (\<lambda>acc c. if tag c = ''VariationArchive'' then [clear c] else acc @ [pruned c])
          [] cs)"

text \<open>The rows written while an element is streamed, in the order of the closing tags.\<close>

fun rows_in :: "elem \<Rightarrow> row list" where
  "rows_in (Elem t a tx cs) =
     concat (map rows_in cs)
       @ (if t = ''VariationArchive'' then [row_of (pruned (Elem t a tx cs))] else [])"

definition is_record :: "elem \<Rightarrow> bool" where
  "is_record e = (tag e = ''VariationArchive'')"

text \<open>A document whose records contain no further record.\<close>

definition flat :: "elem \<Rightarrow> bool" where
  "flat doc =
     (\<forall>r \<in> set (doc # iterdescendants doc).
        is_record r \<longrightarrow> (\<forall>d \<in> set (iterdescendants r). \<not> is_record d))"

section \<open>The rule engine of the specification\<close>












section \<open>Notions used to state the properties\<close>

text \<open>
  The state the run is in once a whole element has been streamed into the state \<open>s\<close>:
  the rows of the records inside it are written, and the element is closed the way
  \<open>step\<close> closes it.
\<close>

definition after :: "elem \<Rightarrow> pstate \<Rightarrow> pstate" where
  "after e s =
     (let s' = s\<lparr>written := written s @ concat (map rows_in (children e))\<rparr>
      in if is_record e then loop_body (pruned e) (stack s) s'
         else close_plain (pruned e) (stack s) s')"


text \<open>The records of a document, in document order.\<close>

definition records_of :: "elem \<Rightarrow> elem list" where
  "records_of doc = filter is_record (doc # iterdescendants doc)"

text \<open>
  The proper descendants of an element in document order, each with a flag telling
  whether one of its ancestors below the element is a trait of type disease.
\<close>

definition is_disease_trait :: "elem \<Rightarrow> bool" where
  "is_disease_trait d = (tag d = ''Trait'' \<and> get d ''Type'' = Some ''Disease'')"

fun marked :: "bool \<Rightarrow> elem \<Rightarrow> (bool \<times> elem) list" where
  "marked b (Elem t a tx cs) = concat (map (\<lambda>c. (b, c) # marked (b \<or> is_disease_trait c) c) cs)"

definition preferred_value :: "bool \<times> elem \<Rightarrow> bool" where
  "preferred_value bn =
     (fst bn \<and> tag (snd bn) = ''ElementValue'' \<and> get (snd bn) ''Type'' = Some ''Preferred'')"

text \<open>The sequence that the path of the disease name selects, written out.\<close>

definition disease_candidates :: "elem \<Rightarrow> elem list" where
  "disease_candidates e =
     concat (map (\<lambda>t. filter (\<lambda>c. tag c = ''ElementValue'') (iterdescendants t))
               (filter is_disease_trait (iterdescendants e)))"

text \<open>A field value that is null or read from a node of the record's own subtree.\<close>

definition in_scope :: "elem \<Rightarrow> string option \<Rightarrow> bool" where
  "in_scope va v \<longleftrightarrow>
     v = None \<or> (\<exists>n \<in> set (va # iterdescendants va). v = etext n \<or> (\<exists>a. v = get n a))"

section \<open>Sample records and documents\<close>

definition scenario_record :: elem where
  "scenario_record =
     Elem ''VariationArchive'' [(''VariationID'', ''5'')] None
       [Elem ''XRef'' [(''DB'', ''dbSNP''), (''ID'', ''rs999'')] None [],
        Elem ''XRef'' [(''DB'', ''OMIM''), (''Type'', ''MIM''), (''ID'', ''12345'')] None [],
        Elem ''SequenceLocation''
          [(''Assembly'', ''GRCh38''), (''Chr'', ''7''), (''start'', ''1000'')] None [],
        Elem ''SequenceLocation''
          [(''Assembly'', ''GRCh37''), (''Chr'', ''7''), (''start'', ''900'')] None []]"

definition second_record :: elem where
  "second_record =
     Elem ''VariationArchive'' [(''VariationID'', ''6'')] None
       [Elem ''Species'' [] (Some ''Homo sapiens'') [],
        Elem ''XRef'' [(''DB'', ''ClinGen''), (''ID'', ''CA1'')] None [],
        Elem ''XRef'' [(''DB'', ''dbSNP''), (''ID'', ''rs7'')] None [],
        Elem ''XRef'' [(''DB'', ''OMIM''), (''ID'', ''9'')] None [],
        Elem ''SequenceLocation'' [(''Assembly'', ''GRCh37''), (''Chr'', ''1'')] None [],
        Elem ''SequenceLocation'' [(''Assembly'', ''GRCh38''), (''start'', ''5'')] None [],
        Elem ''SequenceLocation''
          [(''Assembly'', ''GRCh38''), (''Chr'', ''9''), (''start'', ''7'')] None []]"

definition sparse_record :: elem where
  "sparse_record =
     Elem ''VariationArchive'' [(''VariationID'', ''8'')] None
       [Elem ''Species'' [] None [],
        Elem ''GeneList'' [] None [Elem ''Gene'' [(''GeneID'', ''672'')] None []]]"

definition release_doc :: elem where
  "release_doc = Elem ''ClinVarVariationRelease'' [] None [scenario_record, second_record]"

definition cousin_doc :: elem where
  "cousin_doc =
     Elem ''ClinVarVariationRelease'' [] None
       [Elem ''Batch'' [] None [Elem ''XRef'' [(''DB'', ''dbSNP''), (''ID'', ''rs1'')] None []],
        Elem ''VariationArchive'' [(''VariationID'', ''1'')] None
          [Elem ''Species'' [] (Some ''Homo sapiens'') []],
        Elem ''VariationArchive'' [(''VariationID'', ''2'')] None
          [Elem ''XRef'' [(''DB'', ''dbSNP''), (''ID'', ''rs2'')] None []]]"

text \<open>
  A document that puts every record into a batch element of its own, so that no two
  records are siblings.
\<close>

definition wrapped :: "nat \<Rightarrow> elem" where
  "wrapped n =
     Elem ''ClinVarVariationRelease'' [] None
       (replicate n
          (Elem ''Batch'' [] None
             [Elem ''VariationArchive'' [(''VariationID'', ''1'')] None []]))"

definition xref_clingen :: elem where
  "xref_clingen = Elem ''XRef'' [(''DB'', ''ClinGen''), (''ID'', ''CA1'')] None []"

definition xref_dbsnp :: elem where
  "xref_dbsnp = Elem ''XRef'' [(''DB'', ''dbSNP''), (''ID'', ''rs7'')] None []"

definition xref_omim :: elem where
  "xref_omim = Elem ''XRef'' [(''DB'', ''OMIM''), (''Type'', ''MIM''), (''ID'', ''9'')] None []"

definition loc_grch37 :: elem where
  "loc_grch37 = Elem ''SequenceLocation'' [(''Assembly'', ''GRCh37''), (''Chr'', ''1'')] None []"

definition loc_grch38_bare :: elem where
  "loc_grch38_bare = Elem ''SequenceLocation'' [(''Assembly'', ''GRCh38''), (''start'', ''5'')] None []"

definition loc_grch38_full :: elem where
  "loc_grch38_full =
     Elem ''SequenceLocation'' [(''Assembly'', ''GRCh38''), (''Chr'', ''9''), (''start'', ''7'')]
       None []"

definition value_alternate :: elem where
  "value_alternate = Elem ''ElementValue'' [(''Type'', ''Alternate'')] (Some ''BRCA1 cancer'') []"

definition value_preferred :: elem where
  "value_preferred =
     Elem ''ElementValue'' [(''Type'', ''Preferred'')] (Some ''Breast cancer'') []"

section \<open>Evaluating the extraction\<close>

lemmas field_defs =
  variation_id_def species_def gene_def variant_type_def consequence_def chrom_pos_def
  chrom_def pos_def rs_id_def clinical_sig_def disease_name_def mim_gene_def mim_disease_def

lemmas path_defs = get_text_def get_attr_def find_first_def findall_def get_def

lemmas ev_defs = row_of_def field_defs path_defs

lemmas sample_defs = xref_clingen_def xref_dbsnp_def xref_omim_def loc_grch37_def
  loc_grch38_bare_def loc_grch38_full_def value_alternate_def value_preferred_def

lemma row_scenario:
  "row_of scenario_record =
     [Some ''5'', Some ''rs999'', None, None, None, Some ''7'', Some ''1000'', None, None,
      None, None, Some ''12345'']"
  by (simp add: scenario_record_def ev_defs)

lemma second_row:
  "row_of second_record =
     [Some ''6'', Some ''rs7'', None, None, None, None, Some ''5'', None, None,
      Some ''Homo sapiens'', None, None]"
  by (simp add: second_record_def ev_defs)

lemma sparse_row:
  "row_of sparse_record =
     [Some ''8'', None, None, None, None, None, None, None, None, None, None, None]"
  by (simp add: sparse_record_def ev_defs)

lemma empty_row:
  "row_of (Elem ''VariationArchive'' [] None []) =
     [None, None, None, None, None, None, None, None, None, None, None, None]"
  by (simp add: ev_defs)

lemma length_row_of: "length (row_of va) = 12"
  by (simp add: row_of_def)

section \<open>The scanning loops take the first match\<close>

lemma findall_descendant:
  "findall va [Self, Descendant t] = filter (\<lambda>c. tag c = t) (iterdescendants va)"
  by (simp add: findall_def)

lemma rs_id_loop_find:
  "rs_id_loop cands =
     (case List.find (\<lambda>x. get x ''DB'' = Some ''dbSNP'') cands of
        None \<Rightarrow> None | Some x \<Rightarrow> get x ''ID'')"
  by (induction cands) simp_all

lemma mim_disease_loop_find:
  "mim_disease_loop cands =
     (case List.find (\<lambda>x. get x ''DB'' = Some ''OMIM'' \<and> get x ''Type'' = Some ''MIM'') cands of
        None \<Rightarrow> None | Some x \<Rightarrow> get x ''ID'')"
  by (induction cands) simp_all

lemma disease_name_loop_find:
  "disease_name_loop cands =
     (case List.find (\<lambda>x. get x ''Type'' = Some ''Preferred'') cands of
        None \<Rightarrow> None | Some x \<Rightarrow> etext x)"
  by (induction cands) simp_all

lemma loc_loop_find:
  "loc_loop cands =
     (case List.find (\<lambda>x. get x ''Assembly'' = Some ''GRCh38'') cands of
        None \<Rightarrow> (None, None) | Some loc \<Rightarrow> (get loc ''Chr'', get loc ''start''))"
  by (induction cands) simp_all

lemma find_split:
  "(\<forall>y \<in> set pre. \<not> P y) \<Longrightarrow> P x \<Longrightarrow> List.find P (pre @ x # post) = Some x"
  by (induction pre) simp_all

lemma find_none: "(\<forall>y \<in> set xs. \<not> P y) \<Longrightarrow> List.find P xs = None"
  by (induction xs) simp_all

lemma find_append:
  "List.find P (xs @ ys) = (case List.find P xs of None \<Rightarrow> List.find P ys | Some x \<Rightarrow> Some x)"
  by (induction xs) simp_all

lemma find_filter: "List.find P (filter Q xs) = List.find (\<lambda>n. Q n \<and> P n) xs"
  by (induction xs) simp_all

lemma find_None_subset: "List.find P ys = None \<Longrightarrow> set xs \<subseteq> set ys \<Longrightarrow> List.find P xs = None"
  by (auto simp: find_None_iff)

section \<open>The streamed run, element by element\<close>

lemma feed_append:
  "feed (xs @ ys) s = (case feed xs s of (None, s') \<Rightarrow> feed ys s' | (Some err, s') \<Rightarrow> (Some err, s'))"
  by (induction xs arbitrary: s) (auto split: sum.splits)

lemma tag_pruned [simp]: "tag (pruned e) = tag e"
  by (cases e) simp

lemma rows_in_alt:
  "rows_in e = concat (map rows_in (children e)) @ (if is_record e then [row_of (pruned e)] else [])"
  by (cases e) (simp add: is_record_def)

lemma feed_children:
  assumes IH: "\<And>c s. c \<in> set cs \<Longrightarrow> stack s \<noteq> [] \<Longrightarrow> feed (events_of c) s = (None, after c s)"
    and st: "stack s = Elem t a tx acc # st"
  shows "feed (concat (map events_of cs)) s =
           (None, s\<lparr>stack := Elem t a tx
                       (foldl (\<lambda>acc c. if tag c = ''VariationArchive'' then [clear c] else acc @ [pruned c]) acc cs) # st,
                     written := written s @ concat (map rows_in cs)\<rparr>)"
  using assms
proof (induction cs arbitrary: acc s)
  case Nil
  then show ?case by simp
next
  case (Cons c cs)
  have ne: "stack s \<noteq> []" using Cons.prems(2) by simp
  have c: "feed (events_of c) s = (None, after c s)"
    using Cons.prems(1)[of c s] ne by simp
  let ?acc' = "if tag c = ''VariationArchive'' then [clear c] else acc @ [pruned c]"
  have st': "stack (after c s) = Elem t a tx ?acc' # st"
    using Cons.prems(2)
    by (simp add: after_def is_record_def loop_body_def close_plain_def Let_def
        set_children_def add_child_def clear_def)
  have w': "written (after c s) = written s @ rows_in c"
    using Cons.prems(2)
    by (simp add: after_def rows_in_alt[of c] is_record_def loop_body_def close_plain_def Let_def)
  have rest: "after c s = s\<lparr>stack := Elem t a tx ?acc' # st, written := written s @ rows_in c\<rparr>"
    using Cons.prems(2)
    by (simp add: after_def rows_in_alt[of c] is_record_def loop_body_def close_plain_def Let_def
        set_children_def add_child_def clear_def)
  have "feed (concat (map events_of cs)) (after c s) =
      (None, (after c s)\<lparr>stack := Elem t a tx
                       (foldl (\<lambda>acc c. if tag c = ''VariationArchive'' then [clear c] else acc @ [pruned c]) ?acc' cs) # st,
                     written := written (after c s) @ concat (map rows_in cs)\<rparr>)"
    by (rule Cons.IH) (use Cons.prems(1) st' in auto)
  then show ?case
    by (simp add: feed_append c rest)
qed

lemma feed_events_of:
  "stack s \<noteq> [] \<or> root s = None \<Longrightarrow> feed (events_of e) s = (None, after e s)"
proof (induction e arbitrary: s)
  case (Elem t a tx cs)
  let ?s1 = "s\<lparr>stack := Elem t a tx [] # stack s\<rparr>"
  have ev: "events_of (Elem t a tx cs) =
      (Start t a # (case tx of None \<Rightarrow> [] | Some x \<Rightarrow> [Text x])) @ concat (map events_of cs) @ [End t]"
    by simp
  have start: "feed (Start t a # (case tx of None \<Rightarrow> [] | Some x \<Rightarrow> [Text x])) s = (None, ?s1)"
    using Elem.prems by (auto simp: add_text_def split: option.splits)
  let ?s2 = "?s1\<lparr>stack := Elem t a tx
                       (foldl (\<lambda>acc c. if tag c = ''VariationArchive'' then [clear c] else acc @ [pruned c]) [] cs) # stack s,
                     written := written ?s1 @ concat (map rows_in cs)\<rparr>"
  have kids: "feed (concat (map events_of cs)) ?s1 = (None, ?s2)"
    by (rule feed_children) (use Elem.IH in auto)
  have fin: "feed [End t] ?s2 = (None, after (Elem t a tx cs) s)"
    by (simp add: after_def is_record_def loop_body_def close_plain_def Let_def
        split: list.splits)
  have tl: "feed (concat (map events_of cs) @ [End t]) ?s1 = (None, after (Elem t a tx cs) s)"
    by (simp only: feed_append kids fin prod.case option.case)
  show ?case
    by (simp only: ev feed_append[of "Start t a # _"] start tl prod.case option.case)
qed

lemma run_events_of: "run (events_of doc) = (map Some header # rows_in doc, None)"
proof -
  have "feed (events_of doc) init_state = (None, after doc init_state)"
    by (rule feed_events_of) (simp add: init_state_def)
  then show ?thesis
    by (simp add: run_def after_def init_state_def loop_body_def close_plain_def Let_def finish_def
        rows_in_alt[of doc])
qed



section \<open>Rows are only ever appended\<close>

lemma step_written:
  "step ev s = Inr s' \<Longrightarrow>
     written s' = written s @ (case stack s of e # st \<Rightarrow> if ev = End ''VariationArchive'' then [row_of e] else [] | [] \<Rightarrow> [])"
  by (cases ev) (auto simp: loop_body_def close_plain_def Let_def split: list.splits if_splits)

lemma step_rows_length:
  "step ev s = Inr s' \<Longrightarrow> \<forall>r \<in> set (written s). length r = 12 \<Longrightarrow> \<forall>r \<in> set (written s'). length r = 12"
  by (drule step_written) (auto simp: length_row_of split: list.splits if_splits)

lemma feed_rows_length:
  "feed evs s = (res, s') \<Longrightarrow> \<forall>r \<in> set (written s). length r = 12 \<Longrightarrow> \<forall>r \<in> set (written s'). length r = 12"
proof (induction evs arbitrary: s)
  case Nil
  then show ?case by simp
next
  case (Cons ev evs)
  show ?case
  proof (cases "step ev s")
    case (Inl err)
    with Cons.prems show ?thesis by simp
  next
    case (Inr s1)
    with Cons.prems have "feed evs s1 = (res, s')" by simp
    moreover have "\<forall>r \<in> set (written s1). length r = 12"
      using step_rows_length[OF Inr] Cons.prems(2) by blast
    ultimately show ?thesis by (rule Cons.IH)
  qed
qed

lemma run_rows_length: "\<forall>r \<in> set (fst (run evs)). length r = length header"
proof -
  obtain res s' where f: "feed evs init_state = (res, s')" by (cases "feed evs init_state")
  have "\<forall>r \<in> set (written s'). length r = 12"
    by (rule feed_rows_length[OF f]) (simp add: init_state_def header_def)
  moreover have "fst (run evs) = written s'"
    using f by (simp add: run_def split: option.splits)
  ultimately show ?thesis by (simp add: header_def)
qed

lemma feed_written_prefix: "feed evs s = (res, s') \<Longrightarrow> prefix (written s) (written s')"
proof (induction evs arbitrary: s)
  case Nil
  then show ?case by simp
next
  case (Cons ev evs)
  show ?case
  proof (cases "step ev s")
    case (Inl err)
    with Cons.prems show ?thesis by simp
  next
    case (Inr s1)
    with Cons.prems have "feed evs s1 = (res, s')" by simp
    then have "prefix (written s1) (written s')" by (rule Cons.IH)
    moreover have "prefix (written s) (written s1)"
      using step_written[OF Inr] by simp
    ultimately show ?thesis by (rule prefix_order.trans[rotated])
  qed
qed

lemma step_stack_End:
  "step ev s = Inr s' \<Longrightarrow> ev = End ''VariationArchive'' \<Longrightarrow> stack s \<noteq> []"
  by (auto split: list.splits)

lemma feed_written_count:
  "feed evs s = (None, s') \<Longrightarrow>
     length (written s') = length (written s) + length (filter (\<lambda>ev. ev = End ''VariationArchive'') evs)"
proof (induction evs arbitrary: s)
  case Nil
  then show ?case by simp
next
  case (Cons ev evs)
  show ?case
  proof (cases "step ev s")
    case (Inl err)
    with Cons.prems show ?thesis by simp
  next
    case (Inr s1)
    with Cons.prems have "feed evs s1 = (None, s')" by simp
    then have "length (written s') = length (written s1) + length (filter (\<lambda>ev. ev = End ''VariationArchive'') evs)"
      by (rule Cons.IH)
    moreover have "length (written s1) = length (written s) + (if ev = End ''VariationArchive'' then 1 else 0)"
      using step_written[OF Inr] step_stack_End[OF Inr] by (auto split: list.splits)
    ultimately show ?thesis by simp
  qed
qed

section \<open>A stream that stops early\<close>

lemma step_started: "step ev s = Inr s' \<Longrightarrow> stack s' \<noteq> [] \<or> root s' \<noteq> None"
  by (cases ev) (auto simp: loop_body_def close_plain_def Let_def split: list.splits if_splits)

lemma feed_started:
  "feed evs s = (None, s') \<Longrightarrow> evs \<noteq> [] \<Longrightarrow> stack s' \<noteq> [] \<or> root s' \<noteq> None"
proof (induction evs arbitrary: s)
  case Nil
  then show ?case by simp
next
  case (Cons ev evs)
  then obtain s1 where s1: "step ev s = Inr s1" and f: "feed evs s1 = (None, s')"
    by (auto split: sum.splits)
  show ?case
  proof (cases "evs = []")
    case True
    with f s1 show ?thesis using step_started by auto
  next
    case False
    with f show ?thesis by (rule Cons.IH)
  qed
qed

lemma step_closed: "stack s = [] \<Longrightarrow> root s \<noteq> None \<Longrightarrow> \<exists>err. step ev s = Inl err"
  by (cases ev) auto

lemma feed_split:
  "feed (xs @ ev # rest) s = (None, s') \<Longrightarrow> \<exists>s1 s2. feed xs s = (None, s1) \<and> step ev s1 = Inr s2"
  by (auto simp: feed_append split: prod.splits option.splits sum.splits)

lemma truncated_run:
  assumes "events_of doc = xs @ ev # rest" and "xs \<noteq> []"
  shows "snd (run xs) = Some (XMLSyntaxError Premature_end)"
    and "prefix (fst (run xs)) (fst (run (events_of doc)))"
    and "length (fst (run xs)) = 1 + length (filter (\<lambda>ev. ev = End ''VariationArchive'') xs)"
proof -
  have full: "feed (xs @ ev # rest) init_state = (None, after doc init_state)"
    using feed_events_of[of init_state doc] assms(1) by (simp add: init_state_def)
  then obtain s1 s2 where s1: "feed xs init_state = (None, s1)" and s2: "step ev s1 = Inr s2"
    using feed_split by blast
  have "stack s1 \<noteq> [] \<or> root s1 \<noteq> None" using feed_started[OF s1 assms(2)] .
  then have ne: "stack s1 \<noteq> []" using step_closed[of s1 ev] s2 by auto
  have r: "run xs = (written s1, Some (XMLSyntaxError Premature_end))"
    using s1 ne by (simp add: run_def finish_def)
  show "snd (run xs) = Some (XMLSyntaxError Premature_end)" using r by simp
  have "feed (ev # rest) s1 = (None, after doc init_state)"
    using full s1 by (simp add: feed_append)
  then have "prefix (written s1) (written (after doc init_state))" by (rule feed_written_prefix)
  moreover have "fst (run (events_of doc)) = written (after doc init_state)"
    using full assms(1) by (simp add: run_def)
  ultimately show "prefix (fst (run xs)) (fst (run (events_of doc)))" using r by simp
  show "length (fst (run xs)) = 1 + length (filter (\<lambda>ev. ev = End ''VariationArchive'') xs)"
    using feed_written_count[OF s1] r by (simp add: init_state_def)
qed

lemma truncated_take:
  assumes "0 < k" and "k < length (events_of doc)"
  shows "snd (run (take k (events_of doc))) = Some (XMLSyntaxError Premature_end)
    \<and> prefix (fst (run (take k (events_of doc)))) (fst (run (events_of doc)))
    \<and> length (fst (run (take k (events_of doc))))
         = 1 + length (filter (\<lambda>ev. ev = End ''VariationArchive'') (take k (events_of doc)))"
proof -
  have split: "events_of doc = take k (events_of doc) @ events_of doc ! k # drop (Suc k) (events_of doc)"
    using assms(2) by (rule id_take_nth_drop)
  have ne: "take k (events_of doc) \<noteq> []" using assms by auto
  show ?thesis
    using truncated_run[OF split ne] by simp
qed

section \<open>Counting retained nodes\<close>


lemma length_descendants:
  "length (concat (map (\<lambda>c. c # iterdescendants c) cs)) = sum_list (map node_count cs)"
  by (induction cs) (simp_all add: node_count_def)

lemma node_count_Elem:
  "node_count (Elem t a tx cs) = Suc (sum_list (map node_count cs))"
  by (simp add: node_count_def[of "Elem t a tx cs"] length_descendants)











lemma peak_ge: "retained s \<le> peak_retained evs s"
  by (cases evs) (simp_all split: sum.splits)



lemma retained_at_most_peak:
  "feed (take k evs) s = (None, s') \<Longrightarrow> retained s' \<le> peak_retained evs s"
proof (induction evs arbitrary: k s)
  case Nil
  then show ?case by simp
next
  case (Cons ev evs)
  show ?case
  proof (cases k)
    case 0
    with Cons.prems show ?thesis using peak_ge[of s "ev # evs"] by simp
  next
    case (Suc j)
    with Cons.prems obtain s1 where s1: "step ev s = Inr s1" and f: "feed (take j evs) s1 = (None, s')"
      by (auto split: sum.splits)
    have "retained s' \<le> peak_retained evs s1" using f by (rule Cons.IH)
    then show ?thesis using s1 by simp
  qed
qed



lemma foldl_replicate_plain:
  "tag b \<noteq> ''VariationArchive'' \<Longrightarrow>
     foldl (\<lambda>acc c. if tag c = ''VariationArchive'' then [clear c] else acc @ [pruned c]) acc (replicate n b)
       = acc @ replicate n (pruned b)"
  by (induction n arbitrary: acc) (simp_all add: replicate_app_Cons_same)

lemma wrapped_grows: "2 * n + 1 \<le> peak_retained (events_of (wrapped n)) init_state"
proof -
  let ?doc = "wrapped n"
  have f: "feed (take (length (events_of ?doc)) (events_of ?doc)) init_state = (None, after ?doc init_state)"
    using feed_events_of[of init_state ?doc] by (simp add: init_state_def)
  have "retained (after ?doc init_state) = node_count (pruned ?doc)"
    by (simp add: after_def Let_def is_record_def wrapped_def close_plain_def init_state_def retained_def)
  also have "\<dots> = 2 * n + 1"
    by (simp add: wrapped_def foldl_replicate_plain node_count_Elem clear_def sum_list_replicate)
  finally show ?thesis using retained_at_most_peak[OF f] by simp
qed

section \<open>Candidates stay inside the record\<close>

lemma descendants_children: "set (children e) \<subseteq> set (iterdescendants e)"
  by (cases e) auto

lemma descendants_trans:
  "d \<in> set (iterdescendants e) \<Longrightarrow> set (iterdescendants d) \<subseteq> set (iterdescendants e)"
proof (induction e)
  case (Elem t a tx cs)
  then obtain c where c: "c \<in> set cs" "d = c \<or> d \<in> set (iterdescendants c)" by auto
  have "set (iterdescendants c) \<subseteq> set (iterdescendants (Elem t a tx cs))" using c(1) by auto
  moreover have "set (iterdescendants d) \<subseteq> set (iterdescendants c)"
    using c Elem.IH[of c] by auto
  ultimately show ?case by blast
qed

lemma select_scope:
  "set result \<subseteq> insert va (set (iterdescendants va)) \<Longrightarrow>
     set (select st result) \<subseteq> insert va (set (iterdescendants va))"
proof (cases st)
  case Self
  assume "set result \<subseteq> insert va (set (iterdescendants va))"
  with Self show ?thesis by simp
next
  case (Child t)
  assume "set result \<subseteq> insert va (set (iterdescendants va))"
  with Child show ?thesis
    using descendants_children descendants_trans by (auto; blast)
next
  case (Descendant t)
  assume "set result \<subseteq> insert va (set (iterdescendants va))"
  with Descendant show ?thesis
    using descendants_trans by (auto; blast)
next
  case (AttrEq k v)
  assume "set result \<subseteq> insert va (set (iterdescendants va))"
  with AttrEq show ?thesis by auto
qed

lemma foldl_select_scope:
  "set result \<subseteq> insert va (set (iterdescendants va)) \<Longrightarrow>
     set (foldl (\<lambda>result st. select st result) result path) \<subseteq> insert va (set (iterdescendants va))"
  by (induction path arbitrary: result) (simp_all add: select_scope)

lemma findall_scope: "set (findall va path) \<subseteq> insert va (set (iterdescendants va))"
  unfolding findall_def by (rule foldl_select_scope) simp

lemma get_text_origin:
  "get_text va p = None \<or> (\<exists>n \<in> set (findall va p). get_text va p = etext n)"
  by (auto simp: get_text_def find_first_def split: list.splits)

lemma get_attr_origin:
  "get_attr va p a = None \<or> (\<exists>n \<in> set (findall va p). get_attr va p a = get n a)"
  by (auto simp: get_attr_def find_first_def split: list.splits)

lemma rs_id_loop_origin:
  "rs_id_loop cands = None \<or> (\<exists>n \<in> set cands. rs_id_loop cands = get n ''ID'')"
  by (induction cands) auto

lemma mim_disease_loop_origin:
  "mim_disease_loop cands = None \<or> (\<exists>n \<in> set cands. mim_disease_loop cands = get n ''ID'')"
  by (induction cands) auto

lemma disease_name_loop_origin:
  "disease_name_loop cands = None \<or> (\<exists>n \<in> set cands. disease_name_loop cands = etext n)"
  by (induction cands) auto

lemma loc_loop_origin:
  "loc_loop cands = (None, None) \<or>
     (\<exists>n \<in> set cands. loc_loop cands = (get n ''Chr'', get n ''start''))"
  by (induction cands) auto

lemma in_scope_text:
  "v = None \<or> (\<exists>n \<in> set (findall va p). v = etext n) \<Longrightarrow> in_scope va v"
  using findall_scope[of va p] unfolding in_scope_def by auto

lemma in_scope_attr:
  "v = None \<or> (\<exists>n \<in> set (findall va p). v = get n a) \<Longrightarrow> in_scope va v"
  using findall_scope[of va p] unfolding in_scope_def by auto

lemma in_scope_fields:
  "in_scope va (variation_id va)" "in_scope va (rs_id va)" "in_scope va (gene va)"
  "in_scope va (variant_type va)" "in_scope va (consequence va)" "in_scope va (chrom va)"
  "in_scope va (pos va)" "in_scope va (clinical_sig va)" "in_scope va (disease_name va)"
  "in_scope va (species va)" "in_scope va (mim_gene va)" "in_scope va (mim_disease va)"
proof -
  show "in_scope va (variation_id va)"
    unfolding in_scope_def variation_id_def by auto
  show "in_scope va (rs_id va)"
    unfolding rs_id_def by (rule in_scope_attr) (rule rs_id_loop_origin)
  show "in_scope va (gene va)"
    unfolding gene_def by (rule in_scope_attr) (rule get_attr_origin)
  show "in_scope va (variant_type va)"
    unfolding variant_type_def by (rule in_scope_text) (rule get_text_origin)
  show "in_scope va (consequence va)"
    unfolding consequence_def by (rule in_scope_attr) (rule get_attr_origin)
  show "in_scope va (chrom va)"
    unfolding chrom_def chrom_pos_def
    by (rule in_scope_attr[where a="''Chr''"])
       (use loc_loop_origin[of "findall va [Self, Descendant ''SequenceLocation'']"] in auto)
  show "in_scope va (pos va)"
    unfolding pos_def chrom_pos_def
    by (rule in_scope_attr[where a="''start''"])
       (use loc_loop_origin[of "findall va [Self, Descendant ''SequenceLocation'']"] in auto)
  show "in_scope va (clinical_sig va)"
    unfolding clinical_sig_def by (rule in_scope_text) (rule get_text_origin)
  show "in_scope va (disease_name va)"
    unfolding disease_name_def by (rule in_scope_text) (rule disease_name_loop_origin)
  show "in_scope va (species va)"
    unfolding species_def by (rule in_scope_text) (rule get_text_origin)
  show "in_scope va (mim_gene va)"
    unfolding mim_gene_def by (rule in_scope_text) (rule get_text_origin)
  show "in_scope va (mim_disease va)"
    unfolding mim_disease_def by (rule in_scope_attr) (rule mim_disease_loop_origin)
qed

lemma row_in_scope: "\<forall>v \<in> set (row_of va). in_scope va v"
  by (simp add: row_of_def in_scope_fields)

section \<open>Documents whose records do not nest\<close>

lemma foldl_plain:
  "(\<And>c. c \<in> set cs \<Longrightarrow> \<not> is_record c \<and> pruned c = c) \<Longrightarrow>
     foldl (\<lambda>acc c. if tag c = ''VariationArchive'' then [clear c] else acc @ [pruned c]) acc cs = acc @ cs"
  by (induction cs arbitrary: acc) (simp_all add: is_record_def)

lemma pruned_plain: "(\<forall>d \<in> set (iterdescendants e). \<not> is_record d) \<Longrightarrow> pruned e = e"
proof (induction e)
  case (Elem t a tx cs)
  have "\<not> is_record c \<and> pruned c = c" if "c \<in> set cs" for c
  proof -
    have "set (c # iterdescendants c) \<subseteq> set (iterdescendants (Elem t a tx cs))"
      using that by auto
    then show ?thesis using Elem.prems Elem.IH[OF that] by auto
  qed
  then show ?case by (simp add: foldl_plain)
qed

lemma rows_in_plain: "(\<forall>d \<in> set (e # iterdescendants e). \<not> is_record d) \<Longrightarrow> rows_in e = []"
proof (induction e)
  case (Elem t a tx cs)
  have "rows_in c = []" if "c \<in> set cs" for c
  proof -
    have "set (c # iterdescendants c) \<subseteq> set (iterdescendants (Elem t a tx cs))"
      using that by auto
    then show ?thesis using Elem.prems Elem.IH[OF that] by auto
  qed
  moreover have "t \<noteq> ''VariationArchive''" using Elem.prems by (simp add: is_record_def)
  ultimately show ?case by simp
qed

lemma child_subtree:
  "c \<in> set cs \<Longrightarrow> set (c # iterdescendants c) \<subseteq> set (iterdescendants (Elem t a tx cs))"
  by auto

lemma flat_child:
  assumes f: "flat (Elem t a tx cs)" and c: "c \<in> set cs"
  shows "flat c"
  unfolding flat_def
proof (intro ballI impI)
  fix r d
  assume r: "r \<in> set (c # iterdescendants c)" and rec: "is_record r"
    and d: "d \<in> set (iterdescendants r)"
  have "r \<in> set (iterdescendants (Elem t a tx cs))"
    using child_subtree[OF c] r by blast
  then have "r \<in> set (Elem t a tx cs # iterdescendants (Elem t a tx cs))"
    by (simp only: list.set insert_iff) blast
  then show "\<not> is_record d"
    using f rec d unfolding flat_def by blast
qed

lemma records_of_Elem:
  "records_of (Elem t a tx cs) =
     (if t = ''VariationArchive'' then [Elem t a tx cs] else []) @ concat (map records_of cs)"
proof -
  have "filter is_record (concat (map (\<lambda>c. c # iterdescendants c) cs)) = concat (map records_of cs)"
    by (induction cs) (simp_all add: records_of_def)
  then show ?thesis by (simp add: records_of_def[of "Elem t a tx cs"] is_record_def)
qed

lemma length_forest:
  "(\<And>c. c \<in> set cs \<Longrightarrow> length (rows_in c) = length (records_of c)) \<Longrightarrow>
     length (concat (map rows_in cs)) = length (concat (map records_of cs))"
  by (induction cs) simp_all

lemma length_rows_in: "length (rows_in e) = length (records_of e)"
proof (induction e)
  case (Elem t a tx cs)
  have "length (concat (map rows_in cs)) = length (concat (map records_of cs))"
    by (rule length_forest) (rule Elem.IH)
  then show ?case by (simp add: records_of_Elem)
qed

lemma rows_forest:
  "(\<And>c. c \<in> set cs \<Longrightarrow> rows_in c = map row_of (records_of c)) \<Longrightarrow>
     concat (map rows_in cs) = map row_of (concat (map records_of cs))"
  by (induction cs) simp_all

lemma rows_forest_empty:
  "(\<And>c. c \<in> set cs \<Longrightarrow> rows_in c = []) \<Longrightarrow> concat (map rows_in cs) = []"
  by (induction cs) simp_all

lemma rows_in_flat: "flat e \<Longrightarrow> rows_in e = map row_of (records_of e)"
proof (induction e)
  case (Elem t a tx cs)
  show ?case
  proof (cases "t = ''VariationArchive''")
    case True
    have none: "\<forall>d \<in> set (iterdescendants (Elem t a tx cs)). \<not> is_record d"
      using Elem.prems True unfolding flat_def is_record_def by simp
    have "rows_in c = []" if "c \<in> set cs" for c
    proof (rule rows_in_plain)
      have "set (c # iterdescendants c) \<subseteq> set (iterdescendants (Elem t a tx cs))"
        using that by auto
      then show "\<forall>d\<in>set (c # iterdescendants c). \<not> is_record d" using none by blast
    qed
    then have kids: "concat (map rows_in cs) = []" by (rule rows_forest_empty)
    have "length (concat (map records_of cs)) = length (concat (map rows_in cs))"
      by (rule length_forest[symmetric]) (rule length_rows_in)
    then have "concat (map records_of cs) = []"
      using kids by simp
    then have recs: "records_of (Elem t a tx cs) = [Elem t a tx cs]"
      using True by (simp add: records_of_Elem)
    have "rows_in (Elem t a tx cs) = [row_of (pruned (Elem t a tx cs))]"
      unfolding rows_in_alt[of "Elem t a tx cs"] using True kids by (simp add: is_record_def)
    also have "\<dots> = [row_of (Elem t a tx cs)]"
      by (simp only: pruned_plain[OF none])
    finally show ?thesis by (simp only: recs list.map)
  next
    case False
    have "rows_in c = map row_of (records_of c)" if "c \<in> set cs" for c
      using Elem.IH[OF that] flat_child[OF Elem.prems that] by simp
    then have "concat (map rows_in cs) = map row_of (concat (map records_of cs))"
      by (rule rows_forest)
    moreover have "records_of (Elem t a tx cs) = concat (map records_of cs)"
      using False by (simp add: records_of_Elem)
    moreover have "rows_in (Elem t a tx cs) = concat (map rows_in cs)"
      using False by simp
    ultimately show ?thesis by simp
  qed
qed

lemma run_flat:
  "flat doc \<Longrightarrow> fst (run (events_of doc)) = map Some header # map row_of (records_of doc)"
  by (simp add: run_events_of rows_in_flat)

lemma run_length: "length (fst (run (events_of doc))) = Suc (length (records_of doc))"
  by (simp add: run_events_of length_rows_in)

section \<open>The disease name in document order\<close>

lemma findall_disease:
  "findall va [Self, Descendant ''Trait'', AttrEq ''Type'' ''Disease'', Descendant ''ElementValue''] = disease_candidates va"
proof -
  have "filter (\<lambda>e. get e ''Type'' = Some ''Disease'') (filter (\<lambda>c. tag c = ''Trait'') xs) = filter is_disease_trait xs" for xs
    by (induction xs) (simp_all add: is_disease_trait_def)
  then show ?thesis by (simp add: findall_def disease_candidates_def)
qed

lemma marked_True_forest:
  "(\<And>c. c \<in> set cs \<Longrightarrow> marked True c = map (Pair True) (iterdescendants c)) \<Longrightarrow>
     concat (map (\<lambda>c. (True, c) # marked True c) cs)
       = map (Pair True) (concat (map (\<lambda>c. c # iterdescendants c) cs))"
  by (induction cs) simp_all

lemma marked_True: "marked True e = map (Pair True) (iterdescendants e)"
proof (induction e)
  case (Elem t a tx cs)
  show ?case using marked_True_forest[of cs] Elem.IH by simp
qed

lemma find_marked_True:
  "List.find preferred_value (map (Pair True) xs)
     = map_option (Pair True)
         (List.find (\<lambda>n. tag n = ''ElementValue'' \<and> get n ''Type'' = Some ''Preferred'') xs)"
  by (induction xs) (simp_all add: preferred_value_def)

lemma disease_candidates_subset: "set (disease_candidates e) \<subseteq> set (filter (\<lambda>c. tag c = ''ElementValue'') (iterdescendants e))"
  using descendants_trans[of _ e] by (auto simp: disease_candidates_def)

lemma disease_candidates_Elem:
  "disease_candidates (Elem t a tx cs) =
     concat (map (\<lambda>c. (if is_disease_trait c
                         then filter (\<lambda>c. tag c = ''ElementValue'') (iterdescendants c) else [])
                       @ disease_candidates c) cs)"
proof -
  have "concat (map (\<lambda>t. filter (\<lambda>c. tag c = ''ElementValue'') (iterdescendants t))
                     (filter is_disease_trait (concat (map (\<lambda>c. c # iterdescendants c) cs))))
     = concat (map (\<lambda>c. (if is_disease_trait c
                         then filter (\<lambda>c. tag c = ''ElementValue'') (iterdescendants c) else [])
                       @ disease_candidates c) cs)"
    by (induction cs) (simp_all add: disease_candidates_def)
  then show ?thesis by (simp add: disease_candidates_def[of "Elem t a tx cs"])
qed

lemma find_child:
  assumes IH: "List.find (\<lambda>n. get n ''Type'' = Some ''Preferred'') (disease_candidates c)
                 = map_option snd (List.find preferred_value (marked False c))"
  shows "List.find (\<lambda>n. get n ''Type'' = Some ''Preferred'')
           ((if is_disease_trait c
             then filter (\<lambda>c. tag c = ''ElementValue'') (iterdescendants c) else []) @ disease_candidates c @ rest)
       = (case map_option snd (List.find preferred_value ((False, c) # marked (is_disease_trait c) c)) of
            None \<Rightarrow> List.find (\<lambda>n. get n ''Type'' = Some ''Preferred'') rest
          | Some x \<Rightarrow> Some x)"
proof (cases "is_disease_trait c")
  case True
  let ?P = "\<lambda>n. get n ''Type'' = Some ''Preferred''"
  let ?Q = "\<lambda>c. tag c = ''ElementValue''"
  show ?thesis
  proof (cases "List.find ?P (filter ?Q (iterdescendants c))")
    case None
    then have "List.find ?P (disease_candidates c) = None"
      using disease_candidates_subset[of c] by (rule find_None_subset)
    then show ?thesis
      using True None
      by (simp add: find_append marked_True find_marked_True find_filter preferred_value_def)
  next
    case (Some x)
    then show ?thesis
      using True
      by (simp add: find_append marked_True find_marked_True find_filter preferred_value_def)
  qed
next
  case False
  then show ?thesis
    using IH by (simp add: find_append preferred_value_def split: option.splits)
qed

lemma find_forest:
  "(\<And>c. c \<in> set cs \<Longrightarrow>
        List.find (\<lambda>n. get n ''Type'' = Some ''Preferred'') (disease_candidates c)
          = map_option snd (List.find preferred_value (marked False c))) \<Longrightarrow>
     List.find (\<lambda>n. get n ''Type'' = Some ''Preferred'')
        (concat (map (\<lambda>c. (if is_disease_trait c
                         then filter (\<lambda>c. tag c = ''ElementValue'') (iterdescendants c) else [])
                       @ disease_candidates c) cs))
     = map_option snd
         (List.find preferred_value
            (concat (map (\<lambda>c. (False, c) # marked (is_disease_trait c) c) cs)))"
proof (induction cs)
  case Nil
  then show ?case by simp
next
  case (Cons c cs)
  have c: "List.find (\<lambda>n. get n ''Type'' = Some ''Preferred'') (disease_candidates c)
          = map_option snd (List.find preferred_value (marked False c))"
    using Cons.prems by simp
  have rest: "List.find (\<lambda>n. get n ''Type'' = Some ''Preferred'')
        (concat (map (\<lambda>c. (if is_disease_trait c
                         then filter (\<lambda>c. tag c = ''ElementValue'') (iterdescendants c) else [])
                       @ disease_candidates c) cs))
     = map_option snd
         (List.find preferred_value
            (concat (map (\<lambda>c. (False, c) # marked (is_disease_trait c) c) cs)))"
    using Cons.prems by (intro Cons.IH) simp
  let ?restC = "concat (map (\<lambda>c. (if is_disease_trait c
                         then filter (\<lambda>c. tag c = ''ElementValue'') (iterdescendants c) else [])
                       @ disease_candidates c) cs)"
  let ?restM = "concat (map (\<lambda>c. (False, c) # marked (is_disease_trait c) c) cs)"
  have L: "concat (map (\<lambda>c. (if is_disease_trait c
                         then filter (\<lambda>c. tag c = ''ElementValue'') (iterdescendants c) else [])
                       @ disease_candidates c) (c # cs))
      = (if is_disease_trait c
             then filter (\<lambda>c. tag c = ''ElementValue'') (iterdescendants c) else []) @ disease_candidates c @ ?restC"
    by simp
  have M: "concat (map (\<lambda>c. (False, c) # marked (is_disease_trait c) c) (c # cs))
      = ((False, c) # marked (is_disease_trait c) c) @ ?restM"
    by simp
  have R: "map_option snd (List.find preferred_value (((False, c) # marked (is_disease_trait c) c) @ ?restM))
      = (case map_option snd (List.find preferred_value ((False, c) # marked (is_disease_trait c) c)) of
            None \<Rightarrow> map_option snd (List.find preferred_value ?restM)
          | Some x \<Rightarrow> Some x)"
    unfolding find_append[of preferred_value "(False, c) # marked (is_disease_trait c) c"]
    by (cases "List.find preferred_value ((False, c) # marked (is_disease_trait c) c)") simp_all
  show ?case
    unfolding L M R find_child[OF c] rest ..
qed

lemma find_disease_candidates:
  "List.find (\<lambda>n. get n ''Type'' = Some ''Preferred'') (disease_candidates e)
     = map_option snd (List.find preferred_value (marked False e))"
proof (induction e)
  case (Elem t a tx cs)
  show ?case
  proof -
    have m: "marked False (Elem t a tx cs) = concat (map (\<lambda>c. (False, c) # marked (is_disease_trait c) c) cs)"
      by simp
    show ?thesis unfolding disease_candidates_Elem m by (rule find_forest) (rule Elem.IH)
  qed
qed

lemma disease_name_document_order:
  "disease_name va =
     (case List.find preferred_value (marked False va) of
        None \<Rightarrow> None | Some bn \<Rightarrow> etext (snd bn))"
  by (simp add: disease_name_def findall_disease disease_name_loop_find find_disease_candidates split: option.splits)

section \<open>The rule engine of the specification against the script\<close>















section \<open>The sample documents\<close>

lemma flat_cousin: "flat cousin_doc"
  by (simp add: flat_def cousin_doc_def is_record_def)

lemma recs_cousin: "map row_of (records_of cousin_doc) = 
  [[Some ''1'', None, None, None, None, None, None, None, None, Some ''Homo sapiens'', None, None],
   [Some ''2'', Some ''rs2'', None, None, None, None, None, None, None, None, None, None]]"
  by (simp add: records_of_def cousin_doc_def is_record_def ev_defs)

lemma len_release: "length (events_of release_doc) = 29"
  by (simp add: release_doc_def second_record_def scenario_record_def)

lemma run_trunc: "run (take 14 (events_of release_doc)) = 
   ([map Some header, row_of scenario_record], Some (XMLSyntaxError Premature_end))"
  by (simp add: release_doc_def run_def init_state_def finish_def second_record_def scenario_record_def loop_body_def close_plain_def add_child_def set_children_def add_text_def clear_def)

lemma rows_release: "rows_in release_doc = [row_of scenario_record, row_of second_record]"
  by (simp add: release_doc_def second_record_def scenario_record_def)

section \<open>The properties of the specification\<close>


text \<open>
  C2. Every filtered rule takes its value from the first candidate, in document order,
  for which the filter holds. The candidates of rs_id, mim_disease, chromosome and
  position are the descendants with the tag in document order; the disease name is the
  text of the first preferred element value, in document order, below a disease trait.
  Whatever comes before the first match and does not satisfy the filter is skipped,
  whatever comes after it is not looked at (so with three candidates of which only the
  second satisfies the filter, the second is taken), and when no candidate satisfies the
  filter the value is null.
\<close>

theorem filtered_first_match:
  "rs_id va =
     (case List.find (\<lambda>x. get x ''DB'' = Some ''dbSNP'')
             (filter (\<lambda>c. tag c = ''XRef'') (iterdescendants va)) of
        None \<Rightarrow> None | Some x \<Rightarrow> get x ''ID'')
   \<and> mim_disease va =
     (case List.find (\<lambda>x. get x ''DB'' = Some ''OMIM'' \<and> get x ''Type'' = Some ''MIM'')
             (filter (\<lambda>c. tag c = ''XRef'') (iterdescendants va)) of
        None \<Rightarrow> None | Some x \<Rightarrow> get x ''ID'')
   \<and> chrom_pos va =
     (case List.find (\<lambda>x. get x ''Assembly'' = Some ''GRCh38'')
             (filter (\<lambda>c. tag c = ''SequenceLocation'') (iterdescendants va)) of
        None \<Rightarrow> (None, None) | Some loc \<Rightarrow> (get loc ''Chr'', get loc ''start''))
   \<and> disease_name va =
     (case List.find preferred_value (marked False va) of
        None \<Rightarrow> None | Some bn \<Rightarrow> etext (snd bn))
   \<and> ((\<forall>y \<in> set pre1. get y ''DB'' \<noteq> Some ''dbSNP'') \<and> get x1 ''DB'' = Some ''dbSNP''
        \<longrightarrow> rs_id_loop (pre1 @ x1 # post1) = get x1 ''ID'')
   \<and> ((\<forall>y \<in> set pre2. \<not> (get y ''DB'' = Some ''OMIM'' \<and> get y ''Type'' = Some ''MIM''))
        \<and> get x2 ''DB'' = Some ''OMIM'' \<and> get x2 ''Type'' = Some ''MIM''
        \<longrightarrow> mim_disease_loop (pre2 @ x2 # post2) = get x2 ''ID'')
   \<and> ((\<forall>y \<in> set pre3. get y ''Assembly'' \<noteq> Some ''GRCh38'') \<and> get x3 ''Assembly'' = Some ''GRCh38''
        \<longrightarrow> loc_loop (pre3 @ x3 # post3) = (get x3 ''Chr'', get x3 ''start''))
   \<and> ((\<forall>y \<in> set pre4. get y ''Type'' \<noteq> Some ''Preferred'') \<and> get x4 ''Type'' = Some ''Preferred''
        \<longrightarrow> disease_name_loop (pre4 @ x4 # post4) = etext x4)
   \<and> ((\<forall>y \<in> set cands1. get y ''DB'' \<noteq> Some ''dbSNP'') \<longrightarrow> rs_id_loop cands1 = None)
   \<and> ((\<forall>y \<in> set cands2. \<not> (get y ''DB'' = Some ''OMIM'' \<and> get y ''Type'' = Some ''MIM''))
        \<longrightarrow> mim_disease_loop cands2 = None)
   \<and> ((\<forall>y \<in> set cands3. get y ''Assembly'' \<noteq> Some ''GRCh38'') \<longrightarrow> loc_loop cands3 = (None, None))
   \<and> ((\<forall>y \<in> set cands4. get y ''Type'' \<noteq> Some ''Preferred'') \<longrightarrow> disease_name_loop cands4 = None)"
proof -
  have a: "rs_id va =
     (case List.find (\<lambda>x. get x ''DB'' = Some ''dbSNP'')
             (filter (\<lambda>c. tag c = ''XRef'') (iterdescendants va)) of
        None \<Rightarrow> None | Some x \<Rightarrow> get x ''ID'')"
    by (simp only: rs_id_def findall_descendant rs_id_loop_find)
  have b: "mim_disease va =
     (case List.find (\<lambda>x. get x ''DB'' = Some ''OMIM'' \<and> get x ''Type'' = Some ''MIM'')
             (filter (\<lambda>c. tag c = ''XRef'') (iterdescendants va)) of
        None \<Rightarrow> None | Some x \<Rightarrow> get x ''ID'')"
    by (simp only: mim_disease_def findall_descendant mim_disease_loop_find)
  have c: "chrom_pos va =
     (case List.find (\<lambda>x. get x ''Assembly'' = Some ''GRCh38'')
             (filter (\<lambda>c. tag c = ''SequenceLocation'') (iterdescendants va)) of
        None \<Rightarrow> (None, None) | Some loc \<Rightarrow> (get loc ''Chr'', get loc ''start''))"
    by (simp only: chrom_pos_def findall_descendant loc_loop_find)
  note d = disease_name_document_order[of va]
  have e: "(\<forall>y \<in> set pre1. get y ''DB'' \<noteq> Some ''dbSNP'') \<and> get x1 ''DB'' = Some ''dbSNP''
        \<longrightarrow> rs_id_loop (pre1 @ x1 # post1) = get x1 ''ID''"
    by (simp add: rs_id_loop_find find_split)
  have f: "(\<forall>y \<in> set pre2. \<not> (get y ''DB'' = Some ''OMIM'' \<and> get y ''Type'' = Some ''MIM''))
        \<and> get x2 ''DB'' = Some ''OMIM'' \<and> get x2 ''Type'' = Some ''MIM''
        \<longrightarrow> mim_disease_loop (pre2 @ x2 # post2) = get x2 ''ID''"
    by (simp add: mim_disease_loop_find find_split)
  have g: "(\<forall>y \<in> set pre3. get y ''Assembly'' \<noteq> Some ''GRCh38'') \<and> get x3 ''Assembly'' = Some ''GRCh38''
        \<longrightarrow> loc_loop (pre3 @ x3 # post3) = (get x3 ''Chr'', get x3 ''start'')"
    by (simp add: loc_loop_find find_split)
  have h: "(\<forall>y \<in> set pre4. get y ''Type'' \<noteq> Some ''Preferred'') \<and> get x4 ''Type'' = Some ''Preferred''
        \<longrightarrow> disease_name_loop (pre4 @ x4 # post4) = etext x4"
    by (simp add: disease_name_loop_find find_split)
  have i: "(\<forall>y \<in> set cands1. get y ''DB'' \<noteq> Some ''dbSNP'') \<longrightarrow> rs_id_loop cands1 = None"
    by (simp add: rs_id_loop_find find_none)
  have j: "(\<forall>y \<in> set cands2. \<not> (get y ''DB'' = Some ''OMIM'' \<and> get y ''Type'' = Some ''MIM''))
        \<longrightarrow> mim_disease_loop cands2 = None"
    by (simp add: mim_disease_loop_find find_none)
  have k: "(\<forall>y \<in> set cands3. get y ''Assembly'' \<noteq> Some ''GRCh38'') \<longrightarrow> loc_loop cands3 = (None, None)"
    by (simp add: loc_loop_find find_none)
  have l: "(\<forall>y \<in> set cands4. get y ''Type'' \<noteq> Some ''Preferred'') \<longrightarrow> disease_name_loop cands4 = None"
    by (simp add: disease_name_loop_find find_none)
  from a b c d e f g h i j k l show ?thesis by blast
qed

theorem filtered_first_match_witness:
  "get xref_clingen ''DB'' \<noteq> Some ''dbSNP'' \<and> get xref_dbsnp ''DB'' = Some ''dbSNP''
   \<and> rs_id_loop ([xref_clingen] @ xref_dbsnp # [xref_omim]) = Some ''rs7''
   \<and> get xref_clingen ''DB'' \<noteq> Some ''OMIM'' \<and> get xref_dbsnp ''DB'' \<noteq> Some ''OMIM''
   \<and> get xref_omim ''DB'' = Some ''OMIM'' \<and> get xref_omim ''Type'' = Some ''MIM''
   \<and> mim_disease_loop ([xref_clingen, xref_dbsnp] @ xref_omim # []) = Some ''9''
   \<and> get loc_grch37 ''Assembly'' \<noteq> Some ''GRCh38''
   \<and> get loc_grch38_bare ''Assembly'' = Some ''GRCh38''
   \<and> loc_loop ([loc_grch37] @ loc_grch38_bare # [loc_grch38_full]) = (None, Some ''5'')
   \<and> get value_alternate ''Type'' \<noteq> Some ''Preferred''
   \<and> get value_preferred ''Type'' = Some ''Preferred''
   \<and> disease_name_loop ([value_alternate] @ value_preferred # [value_alternate])
        = Some ''Breast cancer''
   \<and> rs_id_loop [xref_clingen, xref_omim] = None
   \<and> mim_disease_loop [xref_clingen, xref_dbsnp] = None
   \<and> loc_loop [loc_grch37] = (None, None)
   \<and> disease_name_loop [value_alternate] = None"
  using filtered_first_match[where ?pre1.0 = "[xref_clingen]" and ?x1.0 = xref_dbsnp
      and ?post1.0 = "[xref_omim]" and ?pre2.0 = "[xref_clingen, xref_dbsnp]" and ?x2.0 = xref_omim
      and ?post2.0 = "[]" and ?pre3.0 = "[loc_grch37]" and ?x3.0 = loc_grch38_bare
      and ?post3.0 = "[loc_grch38_full]" and ?pre4.0 = "[value_alternate]"
      and ?x4.0 = value_preferred and ?post4.0 = "[value_alternate]"
      and ?cands1.0 = "[xref_clingen, xref_omim]" and ?cands2.0 = "[xref_clingen, xref_dbsnp]"
      and ?cands3.0 = "[loc_grch37]" and ?cands4.0 = "[value_alternate]" and va = scenario_record]
  by (simp add: sample_defs get_def)

text \<open>
  C3. Every row has one value per column of the header, twelve of them, in the order of
  the header, with null where a rule found nothing (a record without attributes and
  children gives twelve nulls). This holds for every row of every run, whatever the
  stream, and a well-formed document gives one row per record after the header.
\<close>

theorem row_shape:
  "length (row_of va) = length header \<and> length header = 12
   \<and> zip header (row_of va) =
       [(''variation_id'', variation_id va), (''rs_id'', rs_id va), (''gene'', gene va),
        (''variant_type'', variant_type va), (''consequence'', consequence va),
        (''chromosome'', chrom va), (''position'', pos va), (''clinical_sig'', clinical_sig va),
        (''disease_name'', disease_name va), (''species'', species va),
        (''mim_gene'', mim_gene va), (''mim_disease'', mim_disease va)]
   \<and> row_of (Elem ''VariationArchive'' [] None []) =
       [None, None, None, None, None, None, None, None, None, None, None, None]
   \<and> (\<forall>r \<in> set (fst (run evs)). length r = length header)
   \<and> length (fst (run (events_of doc))) = Suc (length (records_of doc))"
  using run_rows_length[of evs] run_length[of doc] empty_row
  by (simp add: row_of_def header_def)

theorem row_shape_witness:
  "row_of second_record \<in> set (fst (run (events_of release_doc)))
   \<and> length (row_of second_record) = length header
   \<and> length (fst (run (events_of release_doc))) = 3"
proof -
  have m: "row_of second_record \<in> set (fst (run (events_of release_doc)))"
    by (simp add: run_events_of rows_release)
  have n: "length (records_of release_doc) = 2"
    by (simp add: records_of_def release_doc_def scenario_record_def second_record_def is_record_def)
  from row_shape[of second_record "events_of release_doc" release_doc] m n
  show ?thesis by simp
qed

text \<open>
  C4. A path that matches no node gives null, and so does a matched node without the
  requested text or attribute; the scanning loops give null on an empty candidate list.
  None of this is an error: the row still has its twelve values, and the run over a
  well-formed document ends without error, with one row per record.
\<close>

theorem missing_field_is_null:
  "(findall va p = [] \<longrightarrow> get_text va p = None \<and> get_attr va p a = None)
   \<and> (find_first vb q = Some n \<and> etext n = None \<longrightarrow> get_text vb q = None)
   \<and> (find_first vc r = Some m \<and> get m b = None \<longrightarrow> get_attr vc r b = None)
   \<and> loc_loop [] = (None, None) \<and> rs_id_loop [] = None
   \<and> disease_name_loop [] = None \<and> mim_disease_loop [] = None
   \<and> length (row_of vd) = length header
   \<and> row_of (Elem ''VariationArchive'' [] None []) =
       [None, None, None, None, None, None, None, None, None, None, None, None]
   \<and> snd (run (events_of doc)) = None
   \<and> length (fst (run (events_of doc))) = Suc (length (records_of doc))"
  using run_length[of doc] empty_row
  by (simp add: get_text_def get_attr_def find_first_def run_events_of row_of_def header_def)

theorem missing_field_is_null_witness:
  "findall scenario_record [Child ''Species''] = []
   \<and> get_text scenario_record [Child ''Species''] = None
   \<and> find_first sparse_record [Child ''Species''] = Some (Elem ''Species'' [] None [])
   \<and> etext (Elem ''Species'' [] None []) = None
   \<and> get_text sparse_record [Child ''Species''] = None
   \<and> find_first sparse_record [Self, Descendant ''GeneList'', Child ''Gene'']
        = Some (Elem ''Gene'' [(''GeneID'', ''672'')] None [])
   \<and> get (Elem ''Gene'' [(''GeneID'', ''672'')] None []) ''Symbol'' = None
   \<and> get_attr sparse_record [Self, Descendant ''GeneList'', Child ''Gene''] ''Symbol'' = None
   \<and> run (events_of (Elem ''ClinVarVariationRelease'' [] None [sparse_record, scenario_record]))
        = ([map Some header, row_of sparse_record, row_of scenario_record], None)"
proof -
  have a: "findall scenario_record [Child ''Species''] = []"
    by (simp add: findall_def scenario_record_def)
  have b: "find_first sparse_record [Child ''Species''] = Some (Elem ''Species'' [] None [])"
    by (simp add: find_first_def findall_def sparse_record_def)
  have c: "find_first sparse_record [Self, Descendant ''GeneList'', Child ''Gene'']
        = Some (Elem ''Gene'' [(''GeneID'', ''672'')] None [])"
    by (simp add: find_first_def findall_def sparse_record_def)
  have d: "get (Elem ''Gene'' [(''GeneID'', ''672'')] None []) ''Symbol'' = None"
    by (simp add: get_def)
  have "rows_in (Elem ''ClinVarVariationRelease'' [] None [sparse_record, scenario_record])
      = [row_of sparse_record, row_of scenario_record]"
    by (simp add: sparse_record_def scenario_record_def)
  then have e: "run (events_of (Elem ''ClinVarVariationRelease'' [] None [sparse_record, scenario_record]))
        = ([map Some header, row_of sparse_record, row_of scenario_record], None)"
    by (simp only: run_events_of)
  from missing_field_is_null[where va = scenario_record and p = "[Child ''Species'']"
      and vb = sparse_record and q = "[Child ''Species'']" and n = "Elem ''Species'' [] None []"
      and vc = sparse_record and r = "[Self, Descendant ''GeneList'', Child ''Gene'']"
      and m = "Elem ''Gene'' [(''GeneID'', ''672'')] None []" and b = "''Symbol''"] a b c d e
  show ?thesis by simp
qed

text \<open>
  C5. Every node a path selects is the record root or one of its descendants, and every
  value of a row is null or the text or an attribute of such a node. In a document whose
  records do not nest, the rows are the rows of the records taken one by one, each
  computed from that record's subtree alone: a node elsewhere in the document, be it under
  the same path, changes nothing.
\<close>

theorem scope_containment:
  "set (findall va path) \<subseteq> set (va # iterdescendants va)
   \<and> (\<forall>v \<in> set (row_of va).
         v = None \<or> (\<exists>n \<in> set (va # iterdescendants va). v = etext n \<or> (\<exists>a. v = get n a)))
   \<and> (flat doc \<longrightarrow> fst (run (events_of doc)) = map Some header # map row_of (records_of doc))"
  using findall_scope[of va path] row_in_scope[of va] run_flat[of doc]
  unfolding in_scope_def by simp

theorem scope_containment_witness:
  "Some ''rs999'' \<in> set (row_of scenario_record)
   \<and> (\<exists>n \<in> set (scenario_record # iterdescendants scenario_record).
         Some ''rs999'' = etext n \<or> (\<exists>a. Some ''rs999'' = get n a))
   \<and> flat cousin_doc
   \<and> fst (run (events_of cousin_doc)) =
       [map Some header,
        [Some ''1'', None, None, None, None, None, None, None, None, Some ''Homo sapiens'',
         None, None],
        [Some ''2'', Some ''rs2'', None, None, None, None, None, None, None, None, None, None]]"
proof -
  have r: "Some ''rs999'' \<in> set (row_of scenario_record)"
    by (simp add: row_scenario)
  have f: "flat cousin_doc" by (rule flat_cousin)
  from scope_containment[of scenario_record "[]" cousin_doc] r f recs_cousin
  show ?thesis by auto
qed




text \<open>
  C7. A stream that stops after at least one event and before the document is complete
  ends the run with the reader's premature-end error (the truncated input of the
  specification, an \<^verbatim>\<open>XMLSyntaxError\<close> that the script does not catch). The rows
  written are the header and one row for each record closed in the part that was read,
  none for a record still open, and they are the first rows of the complete run, in the
  same order.
\<close>

theorem truncated_input:
  "0 < k \<and> k < length (events_of doc) \<longrightarrow>
     snd (run (take k (events_of doc))) = Some (XMLSyntaxError Premature_end)
     \<and> prefix (fst (run (take k (events_of doc)))) (fst (run (events_of doc)))
     \<and> length (fst (run (take k (events_of doc))))
          = 1 + length (filter (\<lambda>ev. ev = End ''VariationArchive'') (take k (events_of doc)))"
  using truncated_take[of k doc] by blast

theorem truncated_input_witness:
  "(0::nat) < 14 \<and> 14 < length (events_of release_doc)
   \<and> run (take 14 (events_of release_doc))
        = ([map Some header, row_of scenario_record], Some (XMLSyntaxError Premature_end))
   \<and> fst (run (events_of release_doc))
        = [map Some header, row_of scenario_record, row_of second_record]"
  using truncated_input[of 14 release_doc]
  by (simp add: len_release run_trunc run_events_of rows_release)




text \<open>
  C10. Chromosome and position are the \<^verbatim>\<open>Chr\<close> and \<^verbatim>\<open>start\<close> attributes of
  one node, the first sequence location in document order whose assembly is GRCh38. The
  scan stops there: an attribute that node lacks is null, whatever later GRCh38
  locations carry. Without a GRCh38 location both values are null.
\<close>

theorem chromosome_and_position_same_node:
  "chrom va =
     (case List.find (\<lambda>x. get x ''Assembly'' = Some ''GRCh38'')
             (filter (\<lambda>c. tag c = ''SequenceLocation'') (iterdescendants va)) of
        None \<Rightarrow> None | Some loc \<Rightarrow> get loc ''Chr'')
   \<and> pos va =
     (case List.find (\<lambda>x. get x ''Assembly'' = Some ''GRCh38'')
             (filter (\<lambda>c. tag c = ''SequenceLocation'') (iterdescendants va)) of
        None \<Rightarrow> None | Some loc \<Rightarrow> get loc ''start'')
   \<and> (filter (\<lambda>c. tag c = ''SequenceLocation'') (iterdescendants va) = pre @ loc # post
        \<and> (\<forall>y \<in> set pre. get y ''Assembly'' \<noteq> Some ''GRCh38'')
        \<and> get loc ''Assembly'' = Some ''GRCh38''
        \<longrightarrow> chrom va = get loc ''Chr'' \<and> pos va = get loc ''start'')
   \<and> ((\<forall>y \<in> set (filter (\<lambda>c. tag c = ''SequenceLocation'') (iterdescendants vb)).
          get y ''Assembly'' \<noteq> Some ''GRCh38'')
        \<longrightarrow> chrom vb = None \<and> pos vb = None)
   \<and> row_of va ! 5 = chrom va \<and> row_of va ! 6 = pos va"
proof -
  have cp: "chrom_pos v = loc_loop (filter (\<lambda>c. tag c = ''SequenceLocation'') (iterdescendants v))" for v
    by (simp only: chrom_pos_def findall_descendant)
  have a: "chrom va =
     (case List.find (\<lambda>x. get x ''Assembly'' = Some ''GRCh38'')
             (filter (\<lambda>c. tag c = ''SequenceLocation'') (iterdescendants va)) of
        None \<Rightarrow> None | Some loc \<Rightarrow> get loc ''Chr'')"
    by (simp add: chrom_def cp loc_loop_find split: option.splits)
  have b: "pos va =
     (case List.find (\<lambda>x. get x ''Assembly'' = Some ''GRCh38'')
             (filter (\<lambda>c. tag c = ''SequenceLocation'') (iterdescendants va)) of
        None \<Rightarrow> None | Some loc \<Rightarrow> get loc ''start'')"
    by (simp add: pos_def cp loc_loop_find split: option.splits)
  have c: "filter (\<lambda>c. tag c = ''SequenceLocation'') (iterdescendants va) = pre @ loc # post
        \<and> (\<forall>y \<in> set pre. get y ''Assembly'' \<noteq> Some ''GRCh38'')
        \<and> get loc ''Assembly'' = Some ''GRCh38''
        \<longrightarrow> chrom va = get loc ''Chr'' \<and> pos va = get loc ''start''"
    by (simp add: chrom_def pos_def cp loc_loop_find find_split)
  have d: "(\<forall>y \<in> set (filter (\<lambda>c. tag c = ''SequenceLocation'') (iterdescendants vb)).
          get y ''Assembly'' \<noteq> Some ''GRCh38'')
        \<longrightarrow> chrom vb = None \<and> pos vb = None"
    by (simp add: chrom_def pos_def cp loc_loop_find find_none)
  have e: "row_of va ! 5 = chrom va \<and> row_of va ! 6 = pos va"
    by (simp add: row_of_def)
  from a b c d e show ?thesis by blast
qed

theorem chromosome_and_position_same_node_witness:
  "filter (\<lambda>c. tag c = ''SequenceLocation'') (iterdescendants second_record)
      = [loc_grch37] @ loc_grch38_bare # [loc_grch38_full]
   \<and> get loc_grch37 ''Assembly'' \<noteq> Some ''GRCh38''
   \<and> get loc_grch38_bare ''Assembly'' = Some ''GRCh38''
   \<and> get loc_grch38_bare ''Chr'' = None
   \<and> get loc_grch38_full ''Chr'' = Some ''9''
   \<and> chrom second_record = None \<and> pos second_record = Some ''5''
   \<and> filter (\<lambda>c. tag c = ''SequenceLocation'') (iterdescendants sparse_record) = []
   \<and> chrom sparse_record = None \<and> pos sparse_record = None"
  using chromosome_and_position_same_node[where va = second_record and pre = "[loc_grch37]"
      and loc = loc_grch38_bare and post = "[loc_grch38_full]" and vb = sparse_record]
  by (simp add: sample_defs second_record_def sparse_record_def get_def)

end
